theory Spec2Isabelle
  imports Complex_Main
begin

section \<open>The power detector of \<open>powerdetector.py\<close>\<close>

text \<open>
  The development embeds class \<open>PowerDetector\<close> of
  \<open>02_Intro_Deep_Learning_Part1/powerdetector.py\<close>: its constructor, the filter
  window it requests and its \<open>detect\<close> method.

  Conventions of the embedding.
  \<^item> Python integers are \<open>int\<close>. Floating-point numbers (Python floats, the
    \<open>float32\<close> and \<open>complex64\<close> arrays) are \<open>real\<close> and \<open>complex\<close>: rounding,
    underflow, infinities and NaN are not modelled; the only floating-point failure that Python
    turns into an exception on this path, the overflow of \<open>10 ** (thresh_db / 10)\<close>,
    is a branch of the model.
  \<^item> One-dimensional arrays are lists; a two-dimensional array is the list of its rows.
  \<^item> Every exception is a value of type \<open>error\<close>; a computation that may raise
    returns \<open>error + 'a\<close> with \<open>Inl\<close> for the exception.
  \<^item> \<open>firwin\<close> and \<open>decimate\<close> belong to the cuSignal library, whose code is not
    part of the repository. They are parameters of the embedding, with the argument
    lists the source passes.
\<close>

subsection \<open>Exceptions and the primitives of Python and of the array library\<close>

datatype error =
    AssertionError
  | ZeroDivisionError
  | OverflowError
  | ValueError
  | IndexError

text \<open>True division \<open>a / b\<close>.\<close>

definition py_truediv :: "real \<Rightarrow> real \<Rightarrow> error + real" where
  "py_truediv a b = (if b = 0 then Inl ZeroDivisionError else Inr (a / b))"

text \<open>\<open>int(r)\<close> truncates towards zero.\<close>

definition py_int :: "real \<Rightarrow> int" where
  "py_int r = (if 0 \<le> r then \<lfloor>r\<rfloor> else \<lceil>r\<rceil>)"

text \<open>The largest finite double; \<open>10 ** e\<close> raises when the power is beyond it.\<close>

definition float_max :: real where
  "float_max = (2 - 1 / 2 ^ 52) * 2 ^ 1023"

definition py_pow10 :: "real \<Rightarrow> error + real" where
  "py_pow10 e = (if float_max < 10 powr e then Inl OverflowError else Inr (10 powr e))"

text \<open>\<open>cp.zeros(n, dtype)\<close>: \<open>z\<close> is the zero of the element type.\<close>

definition cp_zeros :: "'a \<Rightarrow> int \<Rightarrow> error + 'a list" where
  "cp_zeros z n = (if n < 0 then Inl ValueError else Inr (replicate (nat n) z))"

text \<open>
  \<open>a.reshape(-1, k)\<close> of a one-dimensional array, in row-major order: row \<open>i\<close> holds
  the elements \<open>i * k, ..., i * k + k - 1\<close>. It raises unless \<open>k\<close> is positive and
  divides the size.
\<close>

definition reshape_rows :: "'a list \<Rightarrow> int \<Rightarrow> error + 'a list list" where
  "reshape_rows a k =
     (if k \<le> 0 \<or> int (length a) mod k \<noteq> 0 then Inl ValueError
      else Inr (map (\<lambda>i. take (nat k) (drop (i * nat k) a)) [0..<length a div nat k]))"

text \<open>
  \<open>dst[:] = src\<close> for one-dimensional arrays: the shapes agree, or \<open>src\<close> has one
  element, which is broadcast; anything else raises. The result is the new content of
  \<open>dst\<close>.
\<close>

definition assign_all :: "'a list \<Rightarrow> 'a list \<Rightarrow> error + 'a list" where
  "assign_all dst src =
     (if length src = length dst then Inr src
      else if length src = 1 then Inr (replicate (length dst) (hd src))
      else Inl ValueError)"

text \<open>\<open>m[mask]\<close> with a boolean mask over the rows: the mask must have one entry per row.\<close>

definition bool_index :: "'a list \<Rightarrow> bool list \<Rightarrow> error + 'a list" where
  "bool_index m sel =
     (if length sel \<noteq> length m then Inl IndexError
      else Inr (map fst (filter snd (zip m sel))))"

subsection \<open>The interface of the signal-processing library\<close>

datatype window = Hamming | Kaiser real

text \<open>
  \<open>firwin(numtaps, cutoff, window=...)\<close>, the other arguments at their defaults
  (\<open>pass_zero=True\<close>: a low-pass design; \<open>nyq=1.0\<close>: the cutoff is relative to the
  Nyquist frequency).
\<close>

type_synonym firwin_fn = "int \<Rightarrow> real \<Rightarrow> window \<Rightarrow> error + real list"

text \<open>\<open>decimate(x, q, n=..., zero_phase=...)\<close> with \<open>n\<close> an array of coefficients.\<close>

type_synonym decimate_fn = "real list \<Rightarrow> int \<Rightarrow> real list \<Rightarrow> bool \<Rightarrow> error + real list"

subsection \<open>The detector\<close>

record PowerDetector =
  self_seg_len :: int
  self_dec :: int
  self_win :: "real list"
  self_seg_len_dec :: int
  self_thresh :: real
  self_samp_above_thresh :: int
  self_x_power_dec :: "real list"
  self_seg_det_index :: "bool list"

text \<open>\<open>_create_fir_filter_window\<close>; it reads \<open>self._dec\<close> only.\<close>

definition create_fir_filter_window :: "firwin_fn \<Rightarrow> int \<Rightarrow> error + real list" where
  "create_fir_filter_window firwin dec =
     (let ntaps = 2 * dec + 1 in
      case py_truediv 1 (real_of_int dec) of
        Inl e \<Rightarrow> Inl e
      | Inr cut' \<Rightarrow> firwin ntaps cut' (Kaiser (1 / 2)))"

text \<open>The stages of \<open>detect\<close>. First \<open>cp.power(cp.abs(x), 2)\<close>.\<close>

definition power_estimator :: "complex list \<Rightarrow> real list" where
  "power_estimator x = map (\<lambda>z. (cmod z) ^ 2) x"

text \<open>
  \<open>cp.sum(x_power_dec_mat > thresh, axis=1) > samp_above_thresh\<close>: the comparison
  with the threshold, the count of the hits of each row, the comparison of the count.
\<close>

definition threshold_detector :: "real \<Rightarrow> int \<Rightarrow> real list list \<Rightarrow> bool list" where
  "threshold_detector thresh samp_above_thresh x_power_dec_mat =
     (let x_det_dec_mat = map (map (\<lambda>v. thresh < v)) x_power_dec_mat
      in map (\<lambda>row. samp_above_thresh < sum_list (map of_bool row)) x_det_dec_mat)"

text \<open>
  \<open>detect\<close> returns the detector as the call leaves it, together with the selected
  segments or the exception raised. The two working buffers are written in the order
  of the source, so a call that raises later keeps the earlier write.
\<close>

definition detect ::
  "decimate_fn \<Rightarrow> PowerDetector \<Rightarrow> complex list \<Rightarrow> PowerDetector \<times> (error + complex list list)"
where
  "detect decimate self x =
     (let x_power = power_estimator x in
      case decimate x_power (self_dec self) (self_win self) True of
        Inl e \<Rightarrow> (self, Inl e)
      | Inr dec_out \<Rightarrow>
      (case assign_all (self_x_power_dec self) dec_out of
        Inl e \<Rightarrow> (self, Inl e)
      | Inr xpd \<Rightarrow>
      (let self1 = self\<lparr>self_x_power_dec := xpd\<rparr> in
       case reshape_rows xpd (self_seg_len_dec self) of
        Inl e \<Rightarrow> (self1, Inl e)
      | Inr x_power_dec_mat \<Rightarrow>
      (case assign_all (self_seg_det_index self)
              (threshold_detector (self_thresh self) (self_samp_above_thresh self)
                 x_power_dec_mat) of
        Inl e \<Rightarrow> (self1, Inl e)
      | Inr sdi \<Rightarrow>
      (let self2 = self1\<lparr>self_seg_det_index := sdi\<rparr> in
       case reshape_rows x (self_seg_len self) of
        Inl e \<Rightarrow> (self2, Inl e)
      | Inr x_mat \<Rightarrow>
      (case bool_index x_mat sdi of
        Inl e \<Rightarrow> (self2, Inl e)
      | Inr y \<Rightarrow> (self2, Inr y)))))))"

text \<open>The \<open>assert\<close> that opens \<open>__init__\<close>.\<close>

definition check_samp_above_thresh :: "int \<Rightarrow> int \<Rightarrow> int \<Rightarrow> error + unit" where
  "check_samp_above_thresh seg_len dec samp_above_thresh =
     (case py_truediv (real_of_int seg_len) (real_of_int dec) of
        Inl e \<Rightarrow> Inl e
      | Inr q \<Rightarrow> if real_of_int samp_above_thresh \<le> q then Inr () else Inl AssertionError)"

text \<open>
  \<open>__init__\<close>, statement by statement; the last one runs \<open>detect\<close> once on the
  construction buffer.
\<close>

definition PowerDetector_init ::
  "firwin_fn \<Rightarrow> decimate_fn \<Rightarrow> complex list \<Rightarrow> int \<Rightarrow> int \<Rightarrow> real \<Rightarrow> int \<Rightarrow> error + PowerDetector"
where
  "PowerDetector_init firwin decimate buff seg_len dec thresh_db samp_above_thresh =
     (case check_samp_above_thresh seg_len dec samp_above_thresh of
        Inl e \<Rightarrow> Inl e
      | Inr _ \<Rightarrow>
      (case create_fir_filter_window firwin dec of
        Inl e \<Rightarrow> Inl e
      | Inr win \<Rightarrow>
      (case py_truediv (real_of_int seg_len) (real_of_int dec) of
        Inl e \<Rightarrow> Inl e
      | Inr q \<Rightarrow>
      (case py_pow10 (thresh_db / 10) of
        Inl e \<Rightarrow> Inl e
      | Inr thresh \<Rightarrow>
      (case py_truediv (real (length buff)) (real_of_int dec) of
        Inl e \<Rightarrow> Inl e
      | Inr n_dec \<Rightarrow>
      (case cp_zeros 0 (py_int n_dec) of
        Inl e \<Rightarrow> Inl e
      | Inr x_power_dec \<Rightarrow>
      (case py_truediv (real (length buff)) (real_of_int seg_len) of
        Inl e \<Rightarrow> Inl e
      | Inr n_seg \<Rightarrow>
      (case cp_zeros False (py_int n_seg) of
        Inl e \<Rightarrow> Inl e
      | Inr seg_det_index \<Rightarrow>
      (let self = \<lparr>self_seg_len = seg_len, self_dec = dec, self_win = win,
                   self_seg_len_dec = py_int q, self_thresh = thresh,
                   self_samp_above_thresh = samp_above_thresh,
                   self_x_power_dec = x_power_dec, self_seg_det_index = seg_det_index\<rparr>
       in case detect decimate self buff of
            (_, Inl e) \<Rightarrow> Inl e
          | (self', Inr _) \<Rightarrow> Inr self')))))))))"

text \<open>
  The receive loop of \<open>detect_and_record.py\<close> calls \<open>detect\<close> on one buffer after
  the other; an exception ends it. The function returns the detector as the loop
  leaves it.
\<close>

fun detect_loop :: "decimate_fn \<Rightarrow> PowerDetector \<Rightarrow> complex list list \<Rightarrow> PowerDetector" where
  "detect_loop decimate self [] = self"
| "detect_loop decimate self (x # xs) =
     (case detect decimate self x of
        (self', Inl e) \<Rightarrow> self'
      | (self', Inr y) \<Rightarrow> detect_loop decimate self' xs)"

subsection \<open>What the theorems assume of the library\<close>

text \<open>
  The library functions are parameters, so a theorem that depends on their behaviour
  names what it assumes of them. Each assumption is a property of the interface, stated
  on the parameter.

  Whether \<open>decimate\<close> returns, and the length of what it returns, depend on the length
  of its input only (and on the factor, the kernel and the mode), not on the sample
  values.
\<close>

definition decimate_shape_determined :: "decimate_fn \<Rightarrow> bool" where
  "decimate_shape_determined decimate \<longleftrightarrow>
     (\<forall>p p' q w z r. length p' = length p \<longrightarrow> decimate p q w z = Inr r \<longrightarrow>
        (\<exists>r'. decimate p' q w z = Inr r' \<and> length r' = length r))"




subsection \<open>Notions used in the statements\<close>


text \<open>The number of segments whose detection flag is set.\<close>

definition flagged :: "PowerDetector \<Rightarrow> nat" where
  "flagged self = count_list (self_seg_det_index self) True"

text \<open>
  Two detectors that differ in the threshold only, the second one having the higher
  threshold: the same configuration and decimated envelope, and every flag of the
  second is a flag of the first.
\<close>

definition thresh_raised :: "PowerDetector \<Rightarrow> PowerDetector \<Rightarrow> bool" where
  "thresh_raised lo hi \<longleftrightarrow>
     self_seg_len hi = self_seg_len lo \<and> self_dec hi = self_dec lo
   \<and> self_win hi = self_win lo \<and> self_seg_len_dec hi = self_seg_len_dec lo
   \<and> self_samp_above_thresh hi = self_samp_above_thresh lo
   \<and> self_x_power_dec hi = self_x_power_dec lo
   \<and> self_thresh lo \<le> self_thresh hi
   \<and> list_all2 (\<lambda>h l. h \<longrightarrow> l) (self_seg_det_index hi) (self_seg_det_index lo)"

subsection \<open>Instances of the library interface\<close>

text \<open>
  Two simple instances of the interface, on which the theorems below are run at
  concrete inputs: a kernel of equal taps behind the validation of the arguments, and
  plain downsampling (every \<open>q\<close>-th sample, \<open>\<lceil>n / q\<rceil>\<close> of them). They stand for
  the shape of the library's results, not for its numerics.
\<close>

definition firwin_box :: firwin_fn where
  "firwin_box numtaps cutoff w =
     (if cutoff \<le> 0 \<or> 1 \<le> cutoff \<or> numtaps < 0 then Inl ValueError
      else Inr (replicate (nat numtaps) (1 / real_of_int numtaps)))"

definition decimate_pick :: decimate_fn where
  "decimate_pick x q n zero_phase =
     (if q < 1 then Inl ValueError
      else Inr (map (\<lambda>k. x ! (k * nat q)) [0..<(length x + nat q - 1) div nat q]))"

text \<open>
  The detectors met at the concrete inputs: segments of two samples and decimation by
  two, hence five equal taps and one decimated sample per segment.
\<close>

definition example_state :: "real \<Rightarrow> int \<Rightarrow> real list \<Rightarrow> bool list \<Rightarrow> PowerDetector" where
  "example_state thresh sat xpd sdi =
     \<lparr>self_seg_len = 2, self_dec = 2, self_win = [1/5, 1/5, 1/5, 1/5, 1/5],
      self_seg_len_dec = 1, self_thresh = thresh, self_samp_above_thresh = sat,
      self_x_power_dec = xpd, self_seg_det_index = sdi\<rparr>"

text \<open>
  The detector that the constructor returns for the buffer \<open>[2, 0, 0, 0]\<close>, a threshold
  of 0 dB (the linear threshold 1) and \<open>samp_above_thresh = 0\<close>.
\<close>

definition example_detector :: PowerDetector where
  "example_detector = example_state 1 0 [4, 0] [True, False]"

section \<open>Basic facts\<close>

subsection \<open>The array primitives\<close>

lemma reshape_rows_Inr:
  assumes "reshape_rows a k = Inr m"
  shows "0 < k" and "int (length a) mod k = 0"
    and "m = map (\<lambda>i. take (nat k) (drop (i * nat k) a)) [0..<length a div nat k]"
  using assms by (auto simp: reshape_rows_def split: if_splits)

lemma reshape_rows_length:
  assumes "reshape_rows a k = Inr m"
  shows "length m = length a div nat k"
  using reshape_rows_Inr(3)[OF assms] by simp

lemma reshape_rows_dvd:
  assumes "reshape_rows a k = Inr m"
  shows "nat k dvd length a"
proof -
  have k: "0 < k" and md: "int (length a) mod k = 0"
    using reshape_rows_Inr[OF assms] by auto
  from md have "k dvd int (length a)" by (simp add: dvd_eq_mod_eq_0)
  then have "int (nat k) dvd int (length a)" using k by simp
  then show ?thesis by (simp only: int_dvd_int_iff)
qed

lemma reshape_rows_row_length:
  assumes "reshape_rows a k = Inr m" and "r \<in> set m"
  shows "length r = nat k"
proof -
  have k: "0 < k" using reshape_rows_Inr(1)[OF assms(1)] .
  have dv: "nat k dvd length a" using reshape_rows_dvd[OF assms(1)] .
  from assms(2) reshape_rows_Inr(3)[OF assms(1)]
  obtain i where i: "i < length a div nat k" and r: "r = take (nat k) (drop (i * nat k) a)"
    by auto
  from i have "Suc i * nat k \<le> (length a div nat k) * nat k"
    by (intro mult_le_mono1) simp
  also have "\<dots> = length a" using dv by simp
  finally have "i * nat k + nat k \<le> length a" by simp
  then show ?thesis using r by simp
qed

lemma reshape_rows_nth:
  assumes "reshape_rows a k = Inr m" and "i < length m"
  shows "m ! i = take (nat k) (drop (i * nat k) a)"
  using reshape_rows_Inr(3)[OF assms(1)] assms(2) by simp

lemma reshape_rows_same_length:
  assumes "reshape_rows a k = Inr m" and "length b = length a"
  shows "\<exists>m'. reshape_rows b k = Inr m'"
  using assms by (auto simp: reshape_rows_def split: if_splits)

lemma assign_all_length:
  assumes "assign_all dst src = Inr r"
  shows "length r = length dst"
  using assms by (auto simp: assign_all_def split: if_splits)

lemma bool_index_Inr:
  assumes "bool_index m sel = Inr y"
  shows "length sel = length m" and "y = map fst (filter snd (zip m sel))"
  using assms by (auto simp: bool_index_def split: if_splits)

lemma select_nths:
  "length sel = length m \<Longrightarrow>
     map fst (filter snd (zip m sel)) = nths m {i. i < length sel \<and> sel ! i}"
proof (induction m arbitrary: sel)
  case Nil
  then show ?case by simp
next
  case (Cons a m)
  then obtain b sel' where sel: "sel = b # sel'" and len: "length sel' = length m"
    by (cases sel) auto
  have "{j. Suc j \<in> {i. i < length sel \<and> sel ! i}} = {i. i < length sel' \<and> sel' ! i}"
    using sel by auto
  then show ?case using Cons.IH[OF len] sel by (simp add: nths_Cons)
qed

lemma py_truediv_Inr: "py_truediv a b = Inr q \<Longrightarrow> b \<noteq> 0 \<and> q = a / b"
  by (auto simp: py_truediv_def split: if_splits)

lemma py_pow10_Inr: "py_pow10 e = Inr t \<Longrightarrow> t = 10 powr e"
  by (auto simp: py_pow10_def split: if_splits)

lemma cp_zeros_Inr: "cp_zeros z n = Inr a \<Longrightarrow> 0 \<le> n \<and> a = replicate (nat n) z"
  by (auto simp: cp_zeros_def split: if_splits)

subsection \<open>One call of \<open>detect\<close>\<close>

lemma detect_Inr_elim:
  assumes "detect decimate self x = (self', Inr y)"
  obtains dec_out xpd mat sdi x_mat where
    "decimate (power_estimator x) (self_dec self) (self_win self) True = Inr dec_out"
    "assign_all (self_x_power_dec self) dec_out = Inr xpd"
    "reshape_rows xpd (self_seg_len_dec self) = Inr mat"
    "assign_all (self_seg_det_index self)
       (threshold_detector (self_thresh self) (self_samp_above_thresh self) mat) = Inr sdi"
    "reshape_rows x (self_seg_len self) = Inr x_mat"
    "bool_index x_mat sdi = Inr y"
    "self' = self\<lparr>self_x_power_dec := xpd, self_seg_det_index := sdi\<rparr>"
  using assms unfolding detect_def Let_def
  by (auto split: sum.splits)

lemma detect_Inr_intro:
  assumes "decimate (power_estimator x) (self_dec self) (self_win self) True = Inr dec_out"
    "assign_all (self_x_power_dec self) dec_out = Inr xpd"
    "reshape_rows xpd (self_seg_len_dec self) = Inr mat"
    "assign_all (self_seg_det_index self)
       (threshold_detector (self_thresh self) (self_samp_above_thresh self) mat) = Inr sdi"
    "reshape_rows x (self_seg_len self) = Inr x_mat"
    "bool_index x_mat sdi = Inr y"
  shows "detect decimate self x = (self\<lparr>self_x_power_dec := xpd, self_seg_det_index := sdi\<rparr>, Inr y)"
  using assms unfolding detect_def Let_def by simp

text \<open>What a call leaves untouched: the configuration, the kernel and the sizes of the buffers.\<close>

lemma detect_frame:
  assumes "detect decimate self x = (self', r)"
  shows "self_seg_len self' = self_seg_len self"
    and "self_dec self' = self_dec self"
    and "self_win self' = self_win self"
    and "self_seg_len_dec self' = self_seg_len_dec self"
    and "self_thresh self' = self_thresh self"
    and "self_samp_above_thresh self' = self_samp_above_thresh self"
    and "length (self_x_power_dec self') = length (self_x_power_dec self)"
    and "length (self_seg_det_index self') = length (self_seg_det_index self)"
  using assms unfolding detect_def Let_def
  by (auto split: sum.splits dest: assign_all_length)

lemma assign_all_ok_iff:
  "(\<exists>r. assign_all dst src = Inr r) \<longleftrightarrow> length src = length dst \<or> length src = 1"
  by (auto simp: assign_all_def)

lemma assign_all_same_shape:
  assumes "assign_all dst src = Inr r"
    and "length dst' = length dst" and "length src' = length src"
  shows "\<exists>r'. assign_all dst' src' = Inr r'"
  using assms assign_all_ok_iff[of dst src] assign_all_ok_iff[of dst' src'] by auto

lemma length_threshold_detector [simp]:
  "length (threshold_detector t s m) = length m"
  by (simp add: threshold_detector_def)

lemma length_power_estimator [simp]: "length (power_estimator x) = length x"
  by (simp add: power_estimator_def)

lemma bool_index_ok: "length sel = length m \<Longrightarrow> \<exists>y. bool_index m sel = Inr y"
  by (simp add: bool_index_def)

text \<open>Whether a call raises depends on the shapes only.\<close>

lemma detect_same_shape:
  assumes ok: "detect decimate self x = (self', Inr y)"
    and lib: "decimate_shape_determined decimate"
    and len: "length x' = length x"
    and same: "self_dec s = self_dec self" "self_win s = self_win self"
      "self_seg_len s = self_seg_len self" "self_seg_len_dec s = self_seg_len_dec self"
      "length (self_x_power_dec s) = length (self_x_power_dec self)"
      "length (self_seg_det_index s) = length (self_seg_det_index self)"
  shows "\<exists>s' y'. detect decimate s x' = (s', Inr y')"
proof -
  from ok obtain dec_out xpd mat sdi x_mat where
    a1: "decimate (power_estimator x) (self_dec self) (self_win self) True = Inr dec_out"
    and a2: "assign_all (self_x_power_dec self) dec_out = Inr xpd"
    and a3: "reshape_rows xpd (self_seg_len_dec self) = Inr mat"
    and a4: "assign_all (self_seg_det_index self)
       (threshold_detector (self_thresh self) (self_samp_above_thresh self) mat) = Inr sdi"
    and a5: "reshape_rows x (self_seg_len self) = Inr x_mat"
    and a6: "bool_index x_mat sdi = Inr y"
    by (rule detect_Inr_elim)
  from lib a1 len obtain dec_out' where
    b1: "decimate (power_estimator x') (self_dec s) (self_win s) True = Inr dec_out'"
    and l1: "length dec_out' = length dec_out"
    unfolding decimate_shape_determined_def same
    by (metis length_power_estimator)
  from assign_all_same_shape[OF a2 same(5) l1] obtain xpd' where
    b2: "assign_all (self_x_power_dec s) dec_out' = Inr xpd'" by blast
  have l2: "length xpd' = length xpd"
    using assign_all_length[OF a2] assign_all_length[OF b2] same(5) by simp
  from reshape_rows_same_length[OF a3 l2] obtain mat' where
    b3: "reshape_rows xpd' (self_seg_len_dec s) = Inr mat'" unfolding same by blast
  have l3: "length mat' = length mat"
    using reshape_rows_length[OF a3] reshape_rows_length[OF b3] l2 same(4) by simp
  have "\<exists>r'. assign_all (self_seg_det_index s)
       (threshold_detector (self_thresh s) (self_samp_above_thresh s) mat') = Inr r'"
    by (rule assign_all_same_shape[OF a4 same(6)]) (simp add: l3)
  then obtain sdi' where
    b4: "assign_all (self_seg_det_index s)
       (threshold_detector (self_thresh s) (self_samp_above_thresh s) mat') = Inr sdi'"
    by blast
  from reshape_rows_same_length[OF a5 len] obtain x_mat' where
    b5: "reshape_rows x' (self_seg_len s) = Inr x_mat'" unfolding same by blast
  have "length x_mat' = length x_mat"
    using reshape_rows_length[OF a5] reshape_rows_length[OF b5] len same(3) by simp
  moreover have "length sdi' = length sdi"
    using assign_all_length[OF a4] assign_all_length[OF b4] same(6) by simp
  ultimately have "length sdi' = length x_mat'"
    using bool_index_Inr(1)[OF a6] by simp
  from bool_index_ok[OF this] obtain y' where b6: "bool_index x_mat' sdi' = Inr y'"
    by blast
  show ?thesis
    using detect_Inr_intro[of decimate x' s dec_out' xpd' mat' sdi' x_mat' y', OF b1 b2 b3 b4 b5 b6]
    by blast
qed

subsection \<open>Construction\<close>

lemma check_samp_above_thresh_Inr:
  "check_samp_above_thresh seg_len dec sat = Inr u \<Longrightarrow>
     dec \<noteq> 0 \<and> real_of_int sat \<le> real_of_int seg_len / real_of_int dec"
  by (auto simp: check_samp_above_thresh_def py_truediv_def split: if_splits)

lemma init_Inr_elim:
  assumes "PowerDetector_init firwin decimate buff seg_len dec thresh_db sat = Inr self"
  obtains win xpd0 sdi0 y0 where
    "dec \<noteq> 0" "seg_len \<noteq> 0"
    "real_of_int sat \<le> real_of_int seg_len / real_of_int dec"
    "create_fir_filter_window firwin dec = Inr win"
    "py_pow10 (thresh_db / 10) = Inr (10 powr (thresh_db / 10))"
    "xpd0 = replicate (nat (py_int (real (length buff) / real_of_int dec))) 0"
    "sdi0 = replicate (nat (py_int (real (length buff) / real_of_int seg_len))) False"
    "detect decimate
       \<lparr>self_seg_len = seg_len, self_dec = dec, self_win = win,
        self_seg_len_dec = py_int (real_of_int seg_len / real_of_int dec),
        self_thresh = 10 powr (thresh_db / 10),
        self_samp_above_thresh = sat,
        self_x_power_dec = xpd0, self_seg_det_index = sdi0\<rparr> buff = (self, Inr y0)"
proof -
  note I = assms[unfolded PowerDetector_init_def]
  obtain u where c: "check_samp_above_thresh seg_len dec sat = Inr u"
    using I by (cases "check_samp_above_thresh seg_len dec sat") auto
  obtain win where w: "create_fir_filter_window firwin dec = Inr win"
    using I c by (cases "create_fir_filter_window firwin dec") auto
  from c have d: "dec \<noteq> 0" and le: "real_of_int sat \<le> real_of_int seg_len / real_of_int dec"
    using check_samp_above_thresh_Inr by blast+
  from d have q: "py_truediv (real_of_int seg_len) (real_of_int dec)
      = Inr (real_of_int seg_len / real_of_int dec)"
    and nd: "py_truediv (real (length buff)) (real_of_int dec)
      = Inr (real (length buff) / real_of_int dec)"
    by (simp_all add: py_truediv_def)
  obtain t where t: "py_pow10 (thresh_db / 10) = Inr t"
    using I c w q by (cases "py_pow10 (thresh_db / 10)") auto
  then have t': "t = 10 powr (thresh_db / 10)" by (rule py_pow10_Inr)
  obtain xpd0 where
    x: "cp_zeros (0::real) (py_int (real (length buff) / real_of_int dec)) = Inr xpd0"
    using I c w q t nd
    by (cases "cp_zeros (0::real) (py_int (real (length buff) / real_of_int dec))") auto
  obtain ns where
    ns: "py_truediv (real (length buff)) (real_of_int seg_len) = Inr ns"
    using I c w q t nd x
    by (cases "py_truediv (real (length buff)) (real_of_int seg_len)") auto
  then have s: "seg_len \<noteq> 0" and ns': "ns = real (length buff) / real_of_int seg_len"
    using py_truediv_Inr by fastforce+
  obtain sdi0 where sd: "cp_zeros False (py_int ns) = Inr sdi0"
    using I c w q t nd x ns by (cases "cp_zeros False (py_int ns)") auto
  let ?self0 = "\<lparr>self_seg_len = seg_len, self_dec = dec, self_win = win,
        self_seg_len_dec = py_int (real_of_int seg_len / real_of_int dec),
        self_thresh = t,
        self_samp_above_thresh = sat,
        self_x_power_dec = xpd0, self_seg_det_index = sdi0\<rparr>"
  obtain s1 r1 where dt: "detect decimate ?self0 buff = (s1, r1)"
    by (cases "detect decimate ?self0 buff") auto
  have "\<exists>y0. r1 = Inr y0 \<and> s1 = self"
    using I c w q t nd x ns sd dt by (cases r1) (auto simp: Let_def)
  then obtain y0 where "detect decimate ?self0 buff = (self, Inr y0)"
    using dt by auto
  then show ?thesis
    using that[OF d s le w _ _ _ ] t t' cp_zeros_Inr[OF x] cp_zeros_Inr[OF sd] ns'
    by simp
qed

text \<open>After construction, every buffer of the construction length is accepted.\<close>

lemma detect_after_init:
  assumes init: "PowerDetector_init firwin decimate buff seg_len dec thresh_db sat = Inr self"
    and lib: "decimate_shape_determined decimate"
    and len: "length x = length buff"
  shows "\<exists>self' y. detect decimate self x = (self', Inr y)"
proof -
  from init obtain self0 y0 where w: "detect decimate self0 buff = (self, Inr y0)"
    by (rule init_Inr_elim)
  show ?thesis
    by (rule detect_same_shape[OF w lib len]) (simp_all add: detect_frame[OF w])
qed

lemma init_fields:
  assumes init: "PowerDetector_init firwin decimate buff seg_len dec thresh_db sat = Inr self"
  shows "self_seg_len self = seg_len" "self_dec self = dec"
    "self_seg_len_dec self = py_int (real_of_int seg_len / real_of_int dec)"
    "self_thresh self = 10 powr (thresh_db / 10)"
    "self_samp_above_thresh self = sat"
    "create_fir_filter_window firwin dec = Inr (self_win self)"
    "length (self_x_power_dec self) = nat (py_int (real (length buff) / real_of_int dec))"
    "length (self_seg_det_index self) = nat (py_int (real (length buff) / real_of_int seg_len))"
proof -
  from init obtain win xpd0 sdi0 y0 where
    cw: "create_fir_filter_window firwin dec = Inr win"
    and x0: "xpd0 = replicate (nat (py_int (real (length buff) / real_of_int dec))) 0"
    and s0: "sdi0 = replicate (nat (py_int (real (length buff) / real_of_int seg_len))) False"
    and w: "detect decimate
       \<lparr>self_seg_len = seg_len, self_dec = dec, self_win = win,
        self_seg_len_dec = py_int (real_of_int seg_len / real_of_int dec),
        self_thresh = 10 powr (thresh_db / 10),
        self_samp_above_thresh = sat,
        self_x_power_dec = xpd0, self_seg_det_index = sdi0\<rparr> buff = (self, Inr y0)"
    by (rule init_Inr_elim)
  note f = detect_frame[OF w]
  show "self_seg_len self = seg_len" "self_dec self = dec"
    "self_seg_len_dec self = py_int (real_of_int seg_len / real_of_int dec)"
    "self_thresh self = 10 powr (thresh_db / 10)"
    "self_samp_above_thresh self = sat"
    "create_fir_filter_window firwin dec = Inr (self_win self)"
    "length (self_x_power_dec self) = nat (py_int (real (length buff) / real_of_int dec))"
    "length (self_seg_det_index self) = nat (py_int (real (length buff) / real_of_int seg_len))"
    using f cw x0 s0 by simp_all
qed

subsection \<open>The flags, row by row\<close>

lemma sum_of_bool_count:
  "sum_list (map of_bool (map P row)) = int (length (filter P row))"
  by (induction row) simp_all

lemma threshold_detector_nth:
  assumes "i < length m"
  shows "threshold_detector t s m ! i \<longleftrightarrow> s < int (length (filter (\<lambda>v. t < v) (m ! i)))"
proof -
  have "threshold_detector t s m ! i
      \<longleftrightarrow> s < sum_list (map of_bool (map (\<lambda>v. t < v) (m ! i)))"
    using assms by (simp add: threshold_detector_def del: map_map)
  then show ?thesis by (simp only: sum_of_bool_count)
qed





subsection \<open>What the loop keeps\<close>




subsection \<open>Raising the threshold\<close>

lemma count_hits_antimono:
  fixes t1 t2 :: real
  assumes "t1 \<le> t2"
  shows "length (filter (\<lambda>v. t2 < v) row) \<le> length (filter (\<lambda>v. t1 < v) row)"
  using assms by (induction row) auto

lemma threshold_detector_antimono:
  assumes "t1 \<le> t2"
  shows "list_all2 (\<lambda>h l. h \<longrightarrow> l) (threshold_detector t2 s m) (threshold_detector t1 s m)"
proof (rule list_all2_all_nthI)
  show "length (threshold_detector t2 s m) = length (threshold_detector t1 s m)" by simp
next
  fix i assume "i < length (threshold_detector t2 s m)"
  then have i: "i < length m" by simp
  show "threshold_detector t2 s m ! i \<longrightarrow> threshold_detector t1 s m ! i"
    unfolding threshold_detector_nth[OF i]
    using count_hits_antimono[OF assms, of "m ! i"] by linarith
qed

lemma assign_all_rel:
  assumes "length dst2 = length dst1" and "list_all2 R src2 src1"
  shows "rel_sum (=) (list_all2 R) (assign_all dst2 src2) (assign_all dst1 src1)"
proof -
  have l: "length src2 = length src1" using assms(2) by (rule list_all2_lengthD)
  show ?thesis
  proof (cases "length src1 = length dst1")
    case True
    then show ?thesis using assms l by (simp add: assign_all_def)
  next
    case False
    show ?thesis
    proof (cases "length src1 = 1")
      case True
      then obtain a where s1: "src1 = [a]" by (cases src1) auto
      from True l obtain b where s2: "src2 = [b]" by (cases src2) auto
      have "R b a" using assms(2) s1 s2 by simp
      then have "list_all2 R (replicate (length dst1) b) (replicate (length dst1) a)"
        by (simp add: list_all2_conv_all_nth)
      then show ?thesis using False assms(1) s1 s2 by (simp add: assign_all_def)
    next
      case F2: False
      then show ?thesis using False assms(1) l by (simp add: assign_all_def)
    qed
  qed
qed

lemma select_antimono:
  assumes "list_all2 (\<lambda>h l. h \<longrightarrow> l) s2 s1" and "length s1 = length m"
  shows "length (filter snd (zip m s2)) \<le> length (filter snd (zip m s1))"
  using assms
proof (induction s2 s1 arbitrary: m rule: list_all2_induct)
  case Nil
  then show ?case by simp
next
  case (Cons h hs l ls)
  then obtain a m' where m: "m = a # m'" and len: "length ls = length m'"
    by (cases m) auto
  show ?case using Cons.IH[OF len] Cons.hyps(1) m by auto
qed

lemma bool_index_rel:
  assumes "list_all2 (\<lambda>h l. h \<longrightarrow> l) s2 s1"
  shows "rel_sum (=) (\<lambda>y2 y1. length y2 \<le> length y1) (bool_index m s2) (bool_index m s1)"
proof -
  have l: "length s2 = length s1" using assms by (rule list_all2_lengthD)
  show ?thesis
  proof (cases "length s1 = length m")
    case True
    then show ?thesis using l select_antimono[OF assms True] by (simp add: bool_index_def)
  next
    case False
    then show ?thesis using l by (simp add: bool_index_def)
  qed
qed

lemma count_flags_antimono:
  assumes "list_all2 (\<lambda>h l. h \<longrightarrow> l) s2 s1"
  shows "count_list s2 True \<le> count_list s1 True"
  using assms by (induction rule: list_all2_induct) auto

lemma detect_thresh_raised:
  assumes R: "thresh_raised lo hi"
  shows "thresh_raised (fst (detect decimate lo x)) (fst (detect decimate hi x))
       \<and> rel_sum (=) (\<lambda>y2 y1. length y2 \<le> length y1)
            (snd (detect decimate hi x)) (snd (detect decimate lo x))"
proof -
  note eqs = R[unfolded thresh_raised_def]
  have sl: "self_seg_len hi = self_seg_len lo" and dc: "self_dec hi = self_dec lo"
    and wn: "self_win hi = self_win lo" and sd: "self_seg_len_dec hi = self_seg_len_dec lo"
    and sa: "self_samp_above_thresh hi = self_samp_above_thresh lo"
    and xp: "self_x_power_dec hi = self_x_power_dec lo"
    and th: "self_thresh lo \<le> self_thresh hi"
    and fl: "list_all2 (\<lambda>h l. h \<longrightarrow> l) (self_seg_det_index hi) (self_seg_det_index lo)"
    using eqs by simp_all
  show ?thesis
  proof (cases "decimate (power_estimator x) (self_dec lo) (self_win lo) True")
    case (Inl e)
    then show ?thesis using R by (simp add: detect_def dc wn)
  next
    case dec_out: (Inr dec_out)
    show ?thesis
    proof (cases "assign_all (self_x_power_dec lo) dec_out")
      case (Inl e)
      then show ?thesis using R dec_out by (simp add: detect_def dc wn xp)
    next
      case xpd: (Inr xpd)
      have R1: "thresh_raised (lo\<lparr>self_x_power_dec := xpd\<rparr>) (hi\<lparr>self_x_power_dec := xpd\<rparr>)"
        using R by (simp add: thresh_raised_def)
      show ?thesis
      proof (cases "reshape_rows xpd (self_seg_len_dec lo)")
        case (Inl e)
        then show ?thesis using R1 dec_out xpd by (simp add: detect_def dc wn xp sd)
      next
        case mat: (Inr mat)
        let ?f1 = "threshold_detector (self_thresh lo) (self_samp_above_thresh lo) mat"
        let ?f2 = "threshold_detector (self_thresh hi) (self_samp_above_thresh lo) mat"
        have rel: "rel_sum (=) (list_all2 (\<lambda>h l. h \<longrightarrow> l))
            (assign_all (self_seg_det_index hi) ?f2) (assign_all (self_seg_det_index lo) ?f1)"
          by (rule assign_all_rel[OF list_all2_lengthD[OF fl] threshold_detector_antimono[OF th]])
        show ?thesis
        proof (cases "assign_all (self_seg_det_index lo) ?f1")
          case (Inl e)
          then have "assign_all (self_seg_det_index hi) ?f2 = Inl e"
            using rel by (cases "assign_all (self_seg_det_index hi) ?f2") simp_all
          then show ?thesis using Inl R1 dec_out xpd mat
            by (simp add: detect_def dc wn xp sd sa)
        next
          case s1: (Inr sdi1)
          then obtain sdi2 where s2: "assign_all (self_seg_det_index hi) ?f2 = Inr sdi2"
            and ss: "list_all2 (\<lambda>h l. h \<longrightarrow> l) sdi2 sdi1"
            using rel by (cases "assign_all (self_seg_det_index hi) ?f2") simp_all
          have R2: "thresh_raised
              (lo\<lparr>self_x_power_dec := xpd, self_seg_det_index := sdi1\<rparr>)
              (hi\<lparr>self_x_power_dec := xpd, self_seg_det_index := sdi2\<rparr>)"
            using R ss by (simp add: thresh_raised_def)
          show ?thesis
          proof (cases "reshape_rows x (self_seg_len lo)")
            case (Inl e)
            then show ?thesis using R2 dec_out xpd mat s1 s2
              by (simp add: detect_def dc wn xp sd sa sl)
          next
            case xm: (Inr x_mat)
            have rb: "rel_sum (=) (\<lambda>y2 y1. length y2 \<le> length y1)
                (bool_index x_mat sdi2) (bool_index x_mat sdi1)"
              by (rule bool_index_rel[OF ss])
            show ?thesis
            proof (cases "bool_index x_mat sdi1")
              case (Inl e)
              then have "bool_index x_mat sdi2 = Inl e"
                using rb by (cases "bool_index x_mat sdi2") simp_all
              then show ?thesis using Inl R2 dec_out xpd mat s1 s2 xm
                by (simp add: detect_def dc wn xp sd sa sl)
            next
              case y1: (Inr y1)
              then obtain y2 where y2: "bool_index x_mat sdi2 = Inr y2"
                and ly: "length y2 \<le> length y1"
                using rb by (cases "bool_index x_mat sdi2") simp_all
              show ?thesis using y1 y2 ly R2 dec_out xpd mat s1 s2 xm
                by (simp add: detect_def dc wn xp sd sa sl)
            qed
          qed
        qed
      qed
    qed
  qed
qed

lemma detect_loop_thresh_raised:
  "thresh_raised lo hi \<Longrightarrow>
     thresh_raised (detect_loop decimate lo xs) (detect_loop decimate hi xs)"
proof (induction xs arbitrary: lo hi)
  case Nil
  then show ?case by simp
next
  case (Cons x xs)
  note st = detect_thresh_raised[OF Cons.prems, of decimate x]
  obtain l1 r1 where d1: "detect decimate lo x = (l1, r1)" by (cases "detect decimate lo x")
  obtain h1 r2 where d2: "detect decimate hi x = (h1, r2)" by (cases "detect decimate hi x")
  from st d1 d2 have R: "thresh_raised l1 h1"
    and rr: "rel_sum (=) (\<lambda>y2 y1. length y2 \<le> length y1) r2 r1" by simp_all
  show ?case
  proof (cases r1)
    case (Inl e)
    then have "r2 = Inl e" using rr by (cases r2) simp_all
    then show ?thesis using Inl d1 d2 R by simp
  next
    case (Inr y1)
    then obtain y2 where "r2 = Inr y2" using rr by (cases r2) simp_all
    then show ?thesis using Inr d1 d2 Cons.IH[OF R] by simp
  qed
qed

lemma thresh_raised_flagged: "thresh_raised lo hi \<Longrightarrow> flagged hi \<le> flagged lo"
  unfolding thresh_raised_def flagged_def by (blast intro: count_flags_antimono)

lemma init_thresh_raised:
  assumes t: "thresh_db1 \<le> thresh_db2"
    and i1: "PowerDetector_init firwin decimate buff seg_len dec thresh_db1 sat = Inr lo"
    and i2: "PowerDetector_init firwin decimate buff seg_len dec thresh_db2 sat = Inr hi"
  shows "thresh_raised lo hi"
proof -
  from i1 obtain win y1 where c1: "create_fir_filter_window firwin dec = Inr win"
    and w1: "detect decimate
       \<lparr>self_seg_len = seg_len, self_dec = dec, self_win = win,
        self_seg_len_dec = py_int (real_of_int seg_len / real_of_int dec),
        self_thresh = 10 powr (thresh_db1 / 10),
        self_samp_above_thresh = sat,
        self_x_power_dec = replicate (nat (py_int (real (length buff) / real_of_int dec))) 0,
        self_seg_det_index =
          replicate (nat (py_int (real (length buff) / real_of_int seg_len))) False\<rparr> buff
        = (lo, Inr y1)" (is "detect _ ?s1 _ = _")
    by (rule init_Inr_elim) simp
  from i2 obtain win' y2 where c2: "create_fir_filter_window firwin dec = Inr win'"
    and w2: "detect decimate
       \<lparr>self_seg_len = seg_len, self_dec = dec, self_win = win',
        self_seg_len_dec = py_int (real_of_int seg_len / real_of_int dec),
        self_thresh = 10 powr (thresh_db2 / 10),
        self_samp_above_thresh = sat,
        self_x_power_dec = replicate (nat (py_int (real (length buff) / real_of_int dec))) 0,
        self_seg_det_index =
          replicate (nat (py_int (real (length buff) / real_of_int seg_len))) False\<rparr> buff
        = (hi, Inr y2)" (is "detect _ ?s2 _ = _")
    by (rule init_Inr_elim) simp
  have ww: "win' = win" using c1 c2 by simp
  have "(10::real) powr (thresh_db1 / 10) \<le> 10 powr (thresh_db2 / 10)"
    using t by (intro powr_mono) simp_all
  then have "thresh_raised ?s1 ?s2"
    by (simp add: thresh_raised_def ww list_all2_conv_all_nth)
  from detect_thresh_raised[OF this, of decimate buff] show ?thesis
    using w1 w2 by simp
qed

subsection \<open>Rows without a flag\<close>

lemma flagged_0_iff: "flagged self = 0 \<longleftrightarrow> True \<notin> set (self_seg_det_index self)"
  by (simp add: flagged_def count_list_0_iff)

lemma assign_all_set:
  assumes "assign_all dst src = Inr r"
  shows "set r \<subseteq> set src"
proof (cases "length src = length dst")
  case True
  then show ?thesis using assms by (simp add: assign_all_def)
next
  case False
  with assms have one: "length src = 1" and r: "r = replicate (length dst) (hd src)"
    by (auto simp: assign_all_def split: if_splits)
  from one obtain a where "src = [a]" by (cases src) auto
  then show ?thesis using r by auto
qed


lemma bool_index_none:
  assumes "bool_index m sel = Inr y" and "True \<notin> set sel"
  shows "y = []"
proof -
  have "filter snd (zip m sel) = []"
    unfolding filter_empty_conv using assms(2) by (auto dest: set_zip_rightD)
  then show ?thesis using bool_index_Inr(2)[OF assms(1)] by simp
qed

text \<open>A row cannot hold more hits than it has samples.\<close>

lemma threshold_detector_full_count:
  assumes m: "reshape_rows a k = Inr m" and ks: "k \<le> s"
  shows "True \<notin> set (threshold_detector t s m)"
proof
  assume "True \<in> set (threshold_detector t s m)"
  then obtain i where i: "i < length m" and f: "threshold_detector t s m ! i"
    by (auto simp: in_set_conv_nth)
  have "length (m ! i) = nat k" using reshape_rows_row_length[OF m] i by simp
  moreover have "length (filter (\<lambda>v. t < v) (m ! i)) \<le> length (m ! i)"
    by (rule length_filter_le)
  moreover have "0 < k" by (rule reshape_rows_Inr(1)[OF m])
  ultimately have "int (length (filter (\<lambda>v. t < v) (m ! i))) \<le> k" by linarith
  then show False using f ks unfolding threshold_detector_nth[OF i] by linarith
qed


lemma detect_never_flags:
  assumes k: "self_seg_len_dec self \<le> self_samp_above_thresh self"
    and n: "True \<notin> set (self_seg_det_index self)"
    and d: "detect decimate self x = (self', r)"
  shows "True \<notin> set (self_seg_det_index self')" and "r = Inr y \<Longrightarrow> y = []"
proof -
  have new: "True \<notin> set sdi"
    if "reshape_rows xpd (self_seg_len_dec self) = Inr mat"
      and "assign_all (self_seg_det_index self)
        (threshold_detector (self_thresh self) (self_samp_above_thresh self) mat) = Inr sdi"
    for xpd mat sdi
    using threshold_detector_full_count[OF that(1) k] assign_all_set[OF that(2)] by blast
  show "True \<notin> set (self_seg_det_index self')"
    using d n new unfolding detect_def Let_def
    by (auto split: sum.splits)
  show "y = []" if "r = Inr y"
  proof -
    from d that obtain xpd mat sdi x_mat where
      "reshape_rows xpd (self_seg_len_dec self) = Inr mat"
      "assign_all (self_seg_det_index self)
        (threshold_detector (self_thresh self) (self_samp_above_thresh self) mat) = Inr sdi"
      "bool_index x_mat sdi = Inr y"
      by (auto elim: detect_Inr_elim)
    then show ?thesis using new bool_index_none by blast
  qed
qed

lemma detect_loop_never_flags:
  assumes "self_seg_len_dec self \<le> self_samp_above_thresh self"
    and "True \<notin> set (self_seg_det_index self)"
  shows "True \<notin> set (self_seg_det_index (detect_loop decimate self xs))"
  using assms
proof (induction xs arbitrary: self)
  case Nil
  then show ?case by simp
next
  case (Cons x xs)
  obtain s r where d: "detect decimate self x = (s, r)" by (cases "detect decimate self x")
  have n: "True \<notin> set (self_seg_det_index s)"
    by (rule detect_never_flags(1)[OF Cons.prems d])
  have k: "self_seg_len_dec s \<le> self_samp_above_thresh s"
    using Cons.prems(1) detect_frame(4,6)[OF d] by simp
  show ?case using d n Cons.IH[OF k n] by (cases r) simp_all
qed

lemma py_int_of_int [simp]: "py_int (real_of_int k) = k"
  by (simp add: py_int_def)

text \<open>
  The decimated envelope after a call that returns holds values that \<open>decimate\<close>
  returned for the power envelope, whose entries are not negative; the detector itself
  computes none of them.
\<close>

lemma detect_envelope_source:
  assumes "detect decimate self x = (self', Inr y)"
  shows "\<exists>dec_out. decimate (power_estimator x) (self_dec self) (self_win self) True = Inr dec_out
           \<and> set (self_x_power_dec self') \<subseteq> set dec_out
           \<and> (\<forall>v\<in>set (power_estimator x). 0 \<le> v)"
proof -
  from assms obtain dec_out xpd sdi where
    a1: "decimate (power_estimator x) (self_dec self) (self_win self) True = Inr dec_out"
    and a2: "assign_all (self_x_power_dec self) dec_out = Inr xpd"
    and s': "self' = self\<lparr>self_x_power_dec := xpd, self_seg_det_index := sdi\<rparr>"
    by (rule detect_Inr_elim)
  have "\<forall>v\<in>set (power_estimator x). 0 \<le> v"
    by (simp add: power_estimator_def)
  then show ?thesis using a1 assign_all_set[OF a2] s' by simp
qed

subsection \<open>Evaluation at concrete configurations\<close>

lemma decimate_pick_shape: "decimate_shape_determined decimate_pick"
  by (auto simp: decimate_shape_determined_def decimate_pick_def)





lemma firwin_box_2: "create_fir_filter_window firwin_box 2 = Inr [1/5, 1/5, 1/5, 1/5, 1/5]"
  by (simp add: create_fir_filter_window_def firwin_box_def py_truediv_def numeral_eq_Suc)

lemma replicate_numeral: "replicate (numeral k) x = x # replicate (pred_numeral k) x"
  by (simp add: numeral_eq_Suc)

lemma py_pow10_0: "py_pow10 0 = Inr 1"
  by (simp add: py_pow10_def float_max_def)

lemma py_pow10_1: "py_pow10 1 = Inr 10"
  by (simp add: py_pow10_def float_max_def)

lemmas detect_eval = detect_def power_estimator_def decimate_pick_def assign_all_def
  reshape_rows_def threshold_detector_def bool_index_def

lemmas init_eval = PowerDetector_init_def check_samp_above_thresh_def py_truediv_def
  py_int_def cp_zeros_def replicate_numeral

lemma example_init:
  "PowerDetector_init firwin_box decimate_pick [2, 0, 0, 0] 2 2 0 0 = Inr example_detector"
  by (simp add: init_eval firwin_box_2 py_pow10_0 detect_eval example_detector_def
      example_state_def)

lemma example_detect:
  "detect decimate_pick example_detector [0, 0, 3, 0]
     = (example_state 1 0 [0, 9] [False, True], Inr [[3, 0]])"
  by (simp add: detect_eval example_detector_def example_state_def)

lemma example_init_hi:
  "PowerDetector_init firwin_box decimate_pick [2, 0, 0, 0] 2 2 10 0
     = Inr (example_state 10 0 [4, 0] [False, False])"
  by (simp add: init_eval firwin_box_2 py_pow10_1 detect_eval example_state_def)

lemma example_init_full:
  "PowerDetector_init firwin_box decimate_pick [2, 0, 0, 0] 2 2 0 1
     = Inr (example_state 1 1 [4, 0] [False, False])"
  by (simp add: init_eval firwin_box_2 py_pow10_0 detect_eval example_state_def)



section \<open>The claims\<close>

text \<open>
  C1. A detector constructed on a buffer of \<open>N\<close> samples accepts every buffer of
  \<open>N\<close> samples: \<open>seg_len\<close> divides \<open>N\<close>, the buffer is cut into \<open>N / seg_len\<close> rows
  of \<open>seg_len\<close> consecutive samples, and \<open>detect\<close> returns exactly the rows whose
  detection flag is set, in their order. So it returns at most \<open>N / seg_len\<close> rows,
  each of \<open>seg_len\<close> samples.
\<close>

theorem detect_returns_flagged_rows:
  assumes init: "PowerDetector_init firwin decimate buff seg_len dec thresh_db sat = Inr self"
    and lib: "decimate_shape_determined decimate"
    and len: "length x = length buff"
  shows "\<exists>self' y x_mat.
      detect decimate self x = (self', Inr y)
    \<and> 0 < seg_len \<and> int (length x) mod seg_len = 0
    \<and> reshape_rows x seg_len = Inr x_mat
    \<and> length x_mat = length x div nat seg_len
    \<and> (\<forall>i<length x_mat. x_mat ! i = take (nat seg_len) (drop (i * nat seg_len) x))
    \<and> length (self_seg_det_index self') = length x_mat
    \<and> y = nths x_mat {i. i < length x_mat \<and> self_seg_det_index self' ! i}
    \<and> length y \<le> length x div nat seg_len
    \<and> (\<forall>r\<in>set y. length r = nat seg_len)"
proof -
  from detect_after_init[OF init lib len] obtain self' y where
    d: "detect decimate self x = (self', Inr y)" by blast
  from d obtain sdi x_mat where
    a5: "reshape_rows x (self_seg_len self) = Inr x_mat"
    and a6: "bool_index x_mat sdi = Inr y"
    and s': "self_seg_det_index self' = sdi"
    by (rule detect_Inr_elim) simp
  note sl = init_fields(1)[OF init]
  note a5' = a5[unfolded sl]
  have ls: "length sdi = length x_mat" and y: "y = map fst (filter snd (zip x_mat sdi))"
    using bool_index_Inr[OF a6] by simp_all
  have y': "y = nths x_mat {i. i < length x_mat \<and> sdi ! i}"
    using y select_nths[OF ls] ls by simp
  have sub: "set y \<subseteq> set x_mat" unfolding y' by (rule set_nths_subset)
  have "length (filter snd (zip x_mat sdi)) \<le> length (zip x_mat sdi)"
    by (rule length_filter_le)
  then have ly: "length y \<le> length x_mat"
    unfolding y by (simp add: ls)
  have rows: "\<forall>r\<in>set y. length r = nat seg_len"
    using sub reshape_rows_row_length[OF a5'] by blast
  have nth: "\<forall>i<length x_mat. x_mat ! i = take (nat seg_len) (drop (i * nat seg_len) x)"
    using reshape_rows_nth[OF a5'] by blast
  have ls': "length (self_seg_det_index self') = length x_mat"
    using s' ls by simp
  have y'': "y = nths x_mat {i. i < length x_mat \<and> self_seg_det_index self' ! i}"
    using y' s' by simp
  have ly': "length y \<le> length x div nat seg_len"
    using ly reshape_rows_length[OF a5'] by simp
  show ?thesis
  proof (rule exI[of _ self'], rule exI[of _ y], rule exI[of _ x_mat], intro conjI)
    show "detect decimate self x = (self', Inr y)" by (fact d)
    show "0 < seg_len" by (fact reshape_rows_Inr(1)[OF a5'])
    show "int (length x) mod seg_len = 0" by (fact reshape_rows_Inr(2)[OF a5'])
    show "reshape_rows x seg_len = Inr x_mat" by (fact a5')
    show "length x_mat = length x div nat seg_len" by (fact reshape_rows_length[OF a5'])
    show "\<forall>i<length x_mat. x_mat ! i = take (nat seg_len) (drop (i * nat seg_len) x)"
      by (fact nth)
    show "length (self_seg_det_index self') = length x_mat" by (fact ls')
    show "y = nths x_mat {i. i < length x_mat \<and> self_seg_det_index self' ! i}"
      by (fact y'')
    show "length y \<le> length x div nat seg_len" by (fact ly')
    show "\<forall>r\<in>set y. length r = nat seg_len" by (fact rows)
  qed
qed

theorem detect_returns_flagged_rows_witness:
  "PowerDetector_init firwin_box decimate_pick [2, 0, 0, 0] 2 2 0 0 = Inr example_detector
   \<and> decimate_shape_determined decimate_pick
   \<and> length [0, 0, 3, 0 :: complex] = length [2, 0, 0, 0 :: complex]
   \<and> (\<exists>self' y x_mat.
        detect decimate_pick example_detector [0, 0, 3, 0] = (self', Inr y)
      \<and> 0 < (2::int) \<and> int (length [0, 0, 3, 0 :: complex]) mod 2 = 0
      \<and> reshape_rows [0, 0, 3, 0] 2 = Inr x_mat
      \<and> length x_mat = length [0, 0, 3, 0 :: complex] div nat 2
      \<and> (\<forall>i<length x_mat. x_mat ! i = take (nat 2) (drop (i * nat 2) [0, 0, 3, 0]))
      \<and> length (self_seg_det_index self') = length x_mat
      \<and> y = nths x_mat {i. i < length x_mat \<and> self_seg_det_index self' ! i}
      \<and> length y \<le> length [0, 0, 3, 0 :: complex] div nat 2
      \<and> (\<forall>r\<in>set y. length r = nat 2))"
proof -
  have len: "length [0, 0, 3, 0 :: complex] = length [2, 0, 0, 0 :: complex]"
    by simp
  note r = detect_returns_flagged_rows [OF example_init decimate_pick_shape len]
  show ?thesis
    by (intro conjI example_init decimate_pick_shape len r)
qed











text \<open>
  C7. Two detectors constructed with the same buffer, segment length, decimation
  factor and minimum count, the second with a threshold in dB at least as high as the
  first: after construction, after any call of \<open>detect\<close> on the same input and after
  any run on the same inputs, the second has at most as many flagged segments as the
  first, and a call that returns for the first returns for the second, with at most
  as many rows.
\<close>

theorem raising_thresh_db_never_flags_more:
  assumes t: "thresh_db1 \<le> thresh_db2"
    and i1: "PowerDetector_init firwin decimate buff seg_len dec thresh_db1 sat = Inr lo"
    and i2: "PowerDetector_init firwin decimate buff seg_len dec thresh_db2 sat = Inr hi"
  shows "flagged hi \<le> flagged lo
       \<and> (\<forall>x. flagged (fst (detect decimate hi x)) \<le> flagged (fst (detect decimate lo x)))
       \<and> (\<forall>x y1. snd (detect decimate lo x) = Inr y1 \<longrightarrow>
             (\<exists>y2. snd (detect decimate hi x) = Inr y2 \<and> length y2 \<le> length y1))
       \<and> (\<forall>xs. flagged (detect_loop decimate hi xs) \<le> flagged (detect_loop decimate lo xs))"
proof -
  note R = init_thresh_raised[OF t i1 i2]
  have a: "flagged hi \<le> flagged lo" using R by (rule thresh_raised_flagged)
  have b: "flagged (fst (detect decimate hi x)) \<le> flagged (fst (detect decimate lo x))" for x
    using detect_thresh_raised[OF R, of decimate x] by (simp add: thresh_raised_flagged)
  have c: "\<exists>y2. snd (detect decimate hi x) = Inr y2 \<and> length y2 \<le> length y1"
    if "snd (detect decimate lo x) = Inr y1" for x y1
    using detect_thresh_raised[OF R, of decimate x] that
    by (cases "snd (detect decimate hi x)") simp_all
  have d: "flagged (detect_loop decimate hi xs) \<le> flagged (detect_loop decimate lo xs)" for xs
    using detect_loop_thresh_raised[OF R] by (rule thresh_raised_flagged)
  show ?thesis using a b c d by blast
qed

theorem raising_thresh_db_never_flags_more_witness:
  "(0::real) \<le> 10
   \<and> PowerDetector_init firwin_box decimate_pick [2, 0, 0, 0] 2 2 0 0 = Inr example_detector
   \<and> PowerDetector_init firwin_box decimate_pick [2, 0, 0, 0] 2 2 10 0
       = Inr (example_state 10 0 [4, 0] [False, False])
   \<and> flagged (example_state 10 0 [4, 0] [False, False]) \<le> flagged example_detector
   \<and> flagged (fst (detect decimate_pick (example_state 10 0 [4, 0] [False, False]) [0, 0, 3, 0]))
       \<le> flagged (fst (detect decimate_pick example_detector [0, 0, 3, 0]))
   \<and> snd (detect decimate_pick example_detector [0, 0, 3, 0]) = Inr [[3, 0]]
   \<and> (\<exists>y2. snd (detect decimate_pick (example_state 10 0 [4, 0] [False, False]) [0, 0, 3, 0])
              = Inr y2 \<and> length y2 \<le> length [[3, 0 :: complex]])"
proof -
  have le: "(0::real) \<le> 10" by simp
  note t = raising_thresh_db_never_flags_more [OF le example_init example_init_hi]
  have s: "snd (detect decimate_pick example_detector [0, 0, 3, 0]) = Inr [[3, 0]]"
    by (simp add: example_detect)
  show ?thesis using le example_init example_init_hi t s by blast
qed




text \<open>
  C10. A constructed detector with \<open>samp_above_thresh = seg_len / dec\<close> passed the
  assertion and has no flag set; after every call of \<open>detect\<close> and every run of the
  receive loop it still has none; every call that returns, returns the empty matrix;
  and a call on a buffer of the construction length does return.
\<close>

theorem full_count_never_flags:
  assumes init: "PowerDetector_init firwin decimate buff seg_len dec thresh_db sat = Inr self"
    and full: "real_of_int sat = real_of_int seg_len / real_of_int dec"
  shows "check_samp_above_thresh seg_len dec sat = Inr ()
       \<and> flagged self = 0
       \<and> (\<forall>x. flagged (fst (detect decimate self x)) = 0)
       \<and> (\<forall>x y. snd (detect decimate self x) = Inr y \<longrightarrow> y = [])
       \<and> (\<forall>xs. flagged (detect_loop decimate self xs) = 0)
       \<and> (\<forall>x. decimate_shape_determined decimate \<and> length x = length buff \<longrightarrow>
             snd (detect decimate self x) = Inr [])"
proof -
  from init obtain win y0 where d0: "dec \<noteq> 0"
    and w: "detect decimate
       \<lparr>self_seg_len = seg_len, self_dec = dec, self_win = win,
        self_seg_len_dec = py_int (real_of_int seg_len / real_of_int dec),
        self_thresh = 10 powr (thresh_db / 10),
        self_samp_above_thresh = sat,
        self_x_power_dec = replicate (nat (py_int (real (length buff) / real_of_int dec))) 0,
        self_seg_det_index =
          replicate (nat (py_int (real (length buff) / real_of_int seg_len))) False\<rparr> buff
        = (self, Inr y0)" (is "detect _ ?s0 _ = _")
    by (rule init_Inr_elim) simp
  have c: "check_samp_above_thresh seg_len dec sat = Inr ()"
    using d0 full by (simp add: check_samp_above_thresh_def py_truediv_def)
  have k0: "self_seg_len_dec ?s0 \<le> self_samp_above_thresh ?s0"
    using full[symmetric] by simp
  have n0: "True \<notin> set (self_seg_det_index ?s0)" by simp
  have n: "True \<notin> set (self_seg_det_index self)"
    by (rule detect_never_flags(1)[OF k0 n0 w])
  have k: "self_seg_len_dec self \<le> self_samp_above_thresh self"
    using k0 detect_frame(4,6)[OF w] by simp
  have a: "flagged (fst (detect decimate self x)) = 0" for x
    using detect_never_flags(1)[OF k n, of decimate x "fst (detect decimate self x)"
        "snd (detect decimate self x)"]
    by (simp add: flagged_0_iff)
  have b: "y = []" if "snd (detect decimate self x) = Inr y" for x y
  proof -
    have "detect decimate self x = (fst (detect decimate self x), Inr y)"
      using that by (simp add: prod_eq_iff)
    then show ?thesis by (rule detect_never_flags(2)[OF k n]) (rule refl)
  qed
  have l: "flagged (detect_loop decimate self xs) = 0" for xs
    using detect_loop_never_flags[OF k n] by (simp add: flagged_0_iff)
  have s: "snd (detect decimate self x) = Inr []"
    if "decimate_shape_determined decimate \<and> length x = length buff" for x
  proof -
    from that detect_after_init[OF init] obtain self' y where
      "detect decimate self x = (self', Inr y)" by blast
    then show ?thesis using b[of x y] by simp
  qed
  show ?thesis using c n a b l s by (simp add: flagged_0_iff)
qed

theorem full_count_never_flags_witness:
  "PowerDetector_init firwin_box decimate_pick [2, 0, 0, 0] 2 2 0 1
       = Inr (example_state 1 1 [4, 0] [False, False])
   \<and> real_of_int 1 = real_of_int 2 / real_of_int 2
   \<and> check_samp_above_thresh 2 2 1 = Inr ()
   \<and> flagged (example_state 1 1 [4, 0] [False, False]) = 0
   \<and> flagged (fst (detect decimate_pick (example_state 1 1 [4, 0] [False, False]) [2, 0, 3, 0])) = 0
   \<and> snd (detect decimate_pick (example_state 1 1 [4, 0] [False, False]) [2, 0, 3, 0]) = Inr []"
proof -
  have f: "real_of_int 1 = real_of_int 2 / real_of_int 2" by simp
  have l: "length [2, 0, 3, 0 :: complex] = length [2, 0, 0, 0 :: complex]" by simp
  note t = full_count_never_flags [OF example_init_full f]
  have "snd (detect decimate_pick (example_state 1 1 [4, 0] [False, False]) [2, 0, 3, 0]) = Inr []"
    using t decimate_pick_shape l by blast
  then show ?thesis using example_init_full f t by blast
qed

end
